theory Spec2Isabelle
  imports Main "HOL-Library.Word" "HOL-Library.Log_Nat"
begin

unbundle bit_operations_syntax

section \<open>JavaScript numbers and typed arrays\<close>

text \<open>
  The numbers that reach the code under study are integer valued (lengths, loop
  counters, the sequence, the nonce), so a JavaScript number is an \<open>int\<close> here.
  The bitwise operators of the language first convert an operand to a 32-bit integer
  (ToInt32 or ToUint32, that is the value modulo \<open>2^32\<close>) and take the shift count
  modulo 32; their result is read back as a signed (\<open><<\<close>, \<open>&\<close>, \<open>^\<close>) or an
  unsigned (\<open>>>>\<close>) number.
\<close>

type_synonym byte = "8 word"

definition js_shl :: "int \<Rightarrow> int \<Rightarrow> int" where
  \<comment> \<open>\<open>x << k\<close>\<close>
  "js_shl x k = sint (push_bit (nat (k mod 32)) (word_of_int x :: 32 word))"

definition js_ushr :: "int \<Rightarrow> int \<Rightarrow> int" where
  \<comment> \<open>\<open>x >>> k\<close>\<close>
  "js_ushr x k = uint (drop_bit (nat (k mod 32)) (word_of_int x :: 32 word))"

definition js_and :: "int \<Rightarrow> int \<Rightarrow> int" where
  \<comment> \<open>\<open>x & y\<close>\<close>
  "js_and x y = sint ((word_of_int x :: 32 word) AND word_of_int y)"

definition js_ceil_div :: "int \<Rightarrow> int \<Rightarrow> int" where
  \<comment> \<open>\<open>Math.ceil(x/y)\<close> for a positive divisor\<close>
  "js_ceil_div x y = - ((- x) div y)"

definition js_rem :: "int \<Rightarrow> int \<Rightarrow> int" where
  \<comment> \<open>\<open>x % y\<close>: the remainder has the sign of the dividend\<close>
  "js_rem x y = sgn x * (\<bar>x\<bar> mod \<bar>y\<bar>)"

definition ToUint8 :: "int \<Rightarrow> byte" where
  \<comment> \<open>the conversion applied by a store into a \<open>Uint8Array\<close>\<close>
  "ToUint8 x = word_of_int x"

definition byteAt :: "byte list \<Rightarrow> nat \<Rightarrow> byte" where
  \<comment> \<open>\<open>a[i]\<close> as an operand of \<open>^\<close> or as a value stored into a \<open>Uint8Array\<close>:
      out of range the read gives \<open>undefined\<close>, which both contexts convert to 0\<close>
  "byteAt a i = (if i < length a then a ! i else 0)"

section \<open>\<open>AesCtrP.leadingZeros\<close>\<close>

text \<open>
  \<^verbatim>\<open>
  var n = 0;
  if (x == 0) return 64;
  while (1) { if (x < 0) break; n ++; x = x << 1; }
  return n+32;
  \<close>
  The loop has no bound, so it is a partial function whose value \<open>None\<close> stands for a
  call that never returns.
\<close>

partial_function (option) leadingZeros_loop :: "nat \<Rightarrow> int \<Rightarrow> nat option" where
  "leadingZeros_loop n x =
     (if x < 0 then Some n else leadingZeros_loop (n + 1) (js_shl x 1))"

declare leadingZeros_loop.simps [code]

definition leadingZeros :: "int \<Rightarrow> nat option" where
  "leadingZeros x =
     (if x = 0 then Some 64 else map_option (\<lambda>n. n + 32) (leadingZeros_loop 0 x))"

text \<open>
  The first statement of \<open>encrypt\<close> and the third of \<open>decrypt\<close>:
  \<^verbatim>\<open>sequence=(sequence==null)?8:(64 - AesCtrP.leadingZeros(sequence));\<close>
  An absent argument is \<open>None\<close>. The result is the shift count used in the block loop.
\<close>

definition sequenceShift :: "int option \<Rightarrow> int option" where
  "sequenceShift sequence =
     (case sequence of
        None \<Rightarrow> Some 8
      | Some s \<Rightarrow> map_option (\<lambda>lz. 64 - int lz) (leadingZeros s))"

section \<open>The collaborators\<close>

text \<open>
  \<open>Aes.cipher\<close> and \<open>Aes.keyExpansion\<close> belong to another library, the clock and the
  random number generator to the platform. They are parameters of the model:
  \<open>Aes_cipher\<close> maps a block and a key schedule to a block, \<open>Date_getTime\<close> is what
  \<open>(new Date()).getTime()\<close> returns during the call and \<open>Math_random\<close> what
  \<open>Math.floor(Math.random()*0xffff)\<close> returns.
\<close>

record 'ks env =
  Aes_cipher :: "byte list \<Rightarrow> 'ks \<Rightarrow> byte list"
  Aes_keyExpansion :: "byte list \<Rightarrow> 'ks"
  Date_getTime :: int
  Math_random :: int

datatype result = Str string | Bytes "byte list"

datatype error = RangeError

section \<open>Key derivation\<close>

text \<open>
  The same statements in \<open>encrypt\<close> and in \<open>decrypt\<close>:
  \<^verbatim>\<open>
  var nBytes = nBits/8;
  var pwBytes = new Uint8Array(nBytes);
  var pl=password.length-1;
  for (var j=0, i=0; i<nBytes;j=j<pl?j+1:0, i++) { pwBytes[i] = password[j]; }
  var key = Aes.cipher(pwBytes, Aes.keyExpansion(pwBytes));
  key = AesCtrP.concat(key,key.slice(0, nBytes-16));
  \<close>
\<close>

definition pwBytes_of :: "byte list \<Rightarrow> nat \<Rightarrow> byte list" where
  "pwBytes_of password nBytes =
     (let pl = int (length password) - 1
      in snd (foldl (\<lambda>(j, pwBytes) i.
                       (if int j < pl then j + 1 else 0, pwBytes[i := byteAt password j]))
                (0, replicate nBytes 0) [0..<nBytes]))"

definition concat_buffers :: "byte list \<Rightarrow> byte list \<Rightarrow> byte list" where
  \<comment> \<open>\<open>AesCtrP.concat\<close>\<close>
  "concat_buffers buffer1 buffer2 = buffer1 @ buffer2"

definition deriveKey :: "'ks env \<Rightarrow> byte list \<Rightarrow> int \<Rightarrow> byte list" where
  "deriveKey env password nBits =
     (let nBytes = nat (nBits div 8);
          pwBytes = pwBytes_of password nBytes;
          key = Aes_cipher env pwBytes (Aes_keyExpansion env pwBytes);
          key = concat_buffers key (take (nBytes - 16) key)
      in key)"

section \<open>The counter block\<close>

text \<open>
  In \<open>encrypt\<close> the counter block is a \<open>Uint8Array\<close>, whose stores reduce modulo 256:
  \<^verbatim>\<open>
  for (var c=0; c<4; c++) counterBlock[15-c] = (b >>> c*8) & 0xff;
  for (var c=0; c<4; c++) counterBlock[15-c-4] = ((b>>>sequence) >>> c*8);
  \<close>
  In \<open>decrypt\<close> it is a plain array and both stores mask with \<open>0xff\<close>, so every element
  is a number from 0 to 255 and is held as a byte here too:
  \<^verbatim>\<open>
  for (var c=0; c<4; c++) counterBlock[15-c] = ((b) >>> c*8) & 0xff;
  for (var c=0; c<4; c++) counterBlock[15-c-4] = ((b>>>sequence) >>> c*8) & 0xff;
  \<close>
  \<open>sequence\<close> is the shift count that replaced the argument at the start of the call.
\<close>

definition encrypt_counter :: "byte list \<Rightarrow> int \<Rightarrow> int \<Rightarrow> byte list" where
  "encrypt_counter counterBlock b sequence =
     (let counterBlock =
            foldl (\<lambda>cb c. cb[15 - c := ToUint8 (js_and (js_ushr b (int c * 8)) 255)])
              counterBlock [0..<4];
          counterBlock =
            foldl (\<lambda>cb c. cb[15 - c - 4 := ToUint8 (js_ushr (js_ushr b sequence) (int c * 8))])
              counterBlock [0..<4]
      in counterBlock)"

definition decrypt_counter :: "byte list \<Rightarrow> int \<Rightarrow> int \<Rightarrow> byte list" where
  "decrypt_counter counterBlock b sequence =
     (let counterBlock =
            foldl (\<lambda>cb c. cb[15 - c := ToUint8 (js_and (js_ushr b (int c * 8)) 255)])
              counterBlock [0..<4];
          counterBlock =
            foldl (\<lambda>cb c. cb[15 - c - 4 :=
                              ToUint8 (js_and (js_ushr (js_ushr b sequence) (int c * 8)) 255)])
              counterBlock [0..<4]
      in counterBlock)"

section \<open>\<open>AesCtrP.encrypt\<close>\<close>

text \<open>
  One turn of the block loop. The state is the counter block, the output buffer and,
  as a record of the calls made, the list of blocks handed to \<open>Aes.cipher\<close> so far.
  \<^verbatim>\<open>
  var cipherCntr = Aes.cipher(counterBlock, keySchedule);
  var blockLength = b<blockCount-1 ? blockSize : (plaintext.length-1)%blockSize+1;
  var index=b*blockSize;
  var bindex=8+index;
  for (var i=0; i<blockLength; i++) ciphertext[bindex+i] = cipherCntr[i] ^ plaintext[index+i];
  \<close>
\<close>

definition encrypt_block ::
  "'ks env \<Rightarrow> 'ks \<Rightarrow> byte list \<Rightarrow> int \<Rightarrow> int \<Rightarrow>
   byte list \<times> byte list \<times> byte list list \<Rightarrow> nat \<Rightarrow>
   byte list \<times> byte list \<times> byte list list" where
  "encrypt_block env keySchedule plaintext sequence blockCount st b =
     (case st of (counterBlock, ciphertext, cipherInputs) \<Rightarrow>
        let counterBlock = encrypt_counter counterBlock (int b) sequence;
            cipherCntr = Aes_cipher env counterBlock keySchedule;
            blockLength = (if int b < blockCount - 1 then 16
                           else js_rem (int (length plaintext) - 1) 16 + 1);
            index = b * 16;
            bindex = 8 + index;
            ciphertext =
              foldl (\<lambda>ct i. ct[bindex + i :=
                                 byteAt cipherCntr i XOR byteAt plaintext (index + i)])
                ciphertext [0..<nat blockLength]
        in (counterBlock, ciphertext, cipherInputs @ [counterBlock]))"

text \<open>
  The body of \<open>encrypt\<close> after the test of \<open>nBits\<close>. The nonce fields are computed and
  then all set to 0 by \<^verbatim>\<open>nonce = nonceMs = nonceSec = nonceRnd = 0;\<close> before they
  are packed.
\<close>

definition encrypt_run ::
  "'ks env \<Rightarrow> byte list \<Rightarrow> byte list \<Rightarrow> int \<Rightarrow> int \<Rightarrow> int option \<Rightarrow>
   byte list \<times> byte list \<times> byte list list" where
  "encrypt_run env plaintext password nBits sequence nonce =
     (let key = deriveKey env password nBits;
          counterBlock = replicate 16 0;
          nonce = (case nonce of None \<Rightarrow> Date_getTime env | Some n \<Rightarrow> n);
          nonceMs = js_rem nonce 1000;
          nonceSec = nonce div 1000;
          nonceRnd = Math_random env;
          nonceRnd = 0; nonceSec = nonceRnd; nonceMs = nonceSec; nonce = nonceMs;
          ciphertext = replicate (length plaintext + 8) 0;
          counterBlock =
            foldl (\<lambda>cb i. cb[i := ToUint8 (js_and (js_ushr nonceMs (int i * 8)) 255)])
              counterBlock [0..<2];
          counterBlock =
            foldl (\<lambda>cb i. cb[i + 2 := ToUint8 (js_and (js_ushr nonceRnd (int i * 8)) 255)])
              counterBlock [0..<2];
          counterBlock =
            foldl (\<lambda>cb i. cb[i + 4 := ToUint8 (js_and (js_ushr nonceSec (int i * 8)) 255)])
              counterBlock [0..<4];
          ciphertext = foldl (\<lambda>ct i. ct[i := byteAt counterBlock i]) ciphertext [0..<8];
          keySchedule = Aes_keyExpansion env key;
          blockCount = js_ceil_div (int (length plaintext)) 16
      in foldl (encrypt_block env keySchedule plaintext sequence blockCount)
           (counterBlock, ciphertext, []) [0..<nat blockCount])"

text \<open>
  The whole call, with the blocks it handed to the cipher in its loop. The shift count
  is derived before \<open>nBits\<close> is tested.
\<close>

definition encrypt_trace ::
  "'ks env \<Rightarrow> byte list \<Rightarrow> byte list \<Rightarrow> int \<Rightarrow> int option \<Rightarrow> int option \<Rightarrow>
   (result \<times> byte list list) option" where
  "encrypt_trace env plaintext password nBits sequence nonce =
     (case sequenceShift sequence of
        None \<Rightarrow> None
      | Some sequence \<Rightarrow>
          if \<not> (nBits = 128 \<or> nBits = 192 \<or> nBits = 256) then Some (Str '''', [])
          else (case encrypt_run env plaintext password nBits sequence nonce of
                  (counterBlock, ciphertext, cipherInputs) \<Rightarrow>
                    Some (Bytes ciphertext, cipherInputs)))"

definition encrypt ::
  "'ks env \<Rightarrow> byte list \<Rightarrow> byte list \<Rightarrow> int \<Rightarrow> int option \<Rightarrow> int option \<Rightarrow>
   result option" where
  "encrypt env plaintext password nBits sequence nonce =
     map_option fst (encrypt_trace env plaintext password nBits sequence nonce)"

section \<open>\<open>AesCtrP.decrypt\<close>\<close>

text \<open>
  \<^verbatim>\<open>
  var cipherCntr = Aes.cipher(counterBlock, keySchedule);
  var index=b*blockSize;
  var bindex=8+index;
  var blockLength = b<blockCount-1 ? blockSize : (plaintext.length-1)%blockSize+1;
  for (var i=0; i<blockLength; i++) plaintext[index+i] = cipherCntr[i] ^ ciphertext[bindex+i];
  \<close>
\<close>

definition decrypt_block ::
  "'ks env \<Rightarrow> 'ks \<Rightarrow> byte list \<Rightarrow> int \<Rightarrow> int \<Rightarrow>
   byte list \<times> byte list \<Rightarrow> nat \<Rightarrow> byte list \<times> byte list" where
  "decrypt_block env keySchedule ciphertext sequence blockCount st b =
     (case st of (counterBlock, plaintext) \<Rightarrow>
        let counterBlock = decrypt_counter counterBlock (int b) sequence;
            cipherCntr = Aes_cipher env counterBlock keySchedule;
            index = b * 16;
            bindex = 8 + index;
            blockLength = (if int b < blockCount - 1 then 16
                           else js_rem (int (length plaintext) - 1) 16 + 1);
            plaintext =
              foldl (\<lambda>pt i. pt[index + i :=
                                 byteAt cipherCntr i XOR byteAt ciphertext (bindex + i)])
                plaintext [0..<nat blockLength]
        in (counterBlock, plaintext))"

text \<open>
  \<open>nBits\<close> is tested first, then the shift count is derived. \<open>ciphertext.length-8\<close> is
  the length asked of \<open>new Uint8Array\<close>, which throws a \<open>RangeError\<close> on a negative
  one. The plain array \<open>new Array(blockSize)\<close> starts without elements; its first eight
  are copied from the ciphertext and the other eight are written by the loop before
  they are read, so they start as 0 here.
\<close>

definition decrypt ::
  "'ks env \<Rightarrow> byte list \<Rightarrow> byte list \<Rightarrow> int \<Rightarrow> int option \<Rightarrow>
   (error + result) option" where
  "decrypt env ciphertext password nBits sequence =
     (if \<not> (nBits = 128 \<or> nBits = 192 \<or> nBits = 256) then Some (Inr (Str ''''))
      else
        (case sequenceShift sequence of
           None \<Rightarrow> None
         | Some sequence \<Rightarrow>
             let key = deriveKey env password nBits
             in if int (length ciphertext) - 8 < 0 then Some (Inl RangeError)
                else
                  let plaintext = replicate (nat (int (length ciphertext) - 8)) 0;
                      counterBlock =
                        foldl (\<lambda>cb i. cb[i := byteAt ciphertext i]) (replicate 16 0) [0..<8];
                      keySchedule = Aes_keyExpansion env key;
                      blockCount = js_ceil_div (int (length ciphertext) - 8) 16
                  in (case foldl (decrypt_block env keySchedule ciphertext sequence blockCount)
                              (counterBlock, plaintext) [0..<nat blockCount] of
                        (counterBlock, plaintext) \<Rightarrow> Some (Inr (Bytes plaintext)))))"

section \<open>Use\<close>

text \<open>
  The use shown in the README, where the same password, key size and sequence go to
  both calls:
  \<^verbatim>\<open>
  var buf=AesCtrP.encrypt(input, password, 256,sequence,nonce)
  var result=AesCtrP.decrypt(buf, password, 256,sequence);
  \<close>
  \<open>encrypt\<close> returns a string only for an unsupported \<open>nBits\<close>, and \<open>decrypt\<close> then
  returns before it reads its first argument.
\<close>

definition decrypt_encrypt ::
  "'ks env \<Rightarrow> byte list \<Rightarrow> byte list \<Rightarrow> int \<Rightarrow> int option \<Rightarrow> int option \<Rightarrow>
   (error + result) option" where
  "decrypt_encrypt env input password nBits sequence nonce =
     (case encrypt env input password nBits sequence nonce of
        None \<Rightarrow> None
      | Some (Bytes buf) \<Rightarrow> decrypt env buf password nBits sequence
      | Some (Str s) \<Rightarrow> decrypt env [] password nBits sequence)"

section \<open>Notions used to state and prove the properties\<close>

text \<open>Byte \<open>c\<close> of a number, counted from the least significant one.\<close>

definition byte_of :: "int \<Rightarrow> nat \<Rightarrow> int" where
  "byte_of x c = (x div 256 ^ c) mod 256"

text \<open>
  The eight bytes that the two inner loops of a block turn leave in places 8 to 15 of
  the counter block, for block number \<open>b\<close> and shift count \<open>sequence\<close>.
\<close>

definition counterBytes :: "int \<Rightarrow> int \<Rightarrow> byte list" where
  "counterBytes b sequence =
     [ToUint8 (js_ushr (js_ushr b sequence) 24), ToUint8 (js_ushr (js_ushr b sequence) 16),
      ToUint8 (js_ushr (js_ushr b sequence) 8), ToUint8 (js_ushr (js_ushr b sequence) 0),
      ToUint8 (js_ushr b 24), ToUint8 (js_ushr b 16), ToUint8 (js_ushr b 8), ToUint8 (js_ushr b 0)]"

text \<open>The value of \<open>blockLength\<close> in turn \<open>b\<close>, for a buffer of \<open>n\<close> bytes.\<close>

definition blockLength :: "nat \<Rightarrow> int \<Rightarrow> nat \<Rightarrow> nat" where
  "blockLength n blockCount b =
     nat (if int b < blockCount - 1 then 16 else js_rem (int n - 1) 16 + 1)"

text \<open>The encrypted counter block of turn \<open>b\<close>, for a counter block that starts with \<open>hdr\<close>.\<close>

definition keyBlock :: "'ks env \<Rightarrow> 'ks \<Rightarrow> byte list \<Rightarrow> int \<Rightarrow> nat \<Rightarrow> byte list" where
  "keyBlock env ks hdr sh b = Aes_cipher env (hdr @ counterBytes (int b) sh) ks"

text \<open>
  The innermost loop of both functions: \<open>blockLength\<close> bytes of \<open>src\<close>, read from
  \<open>srcOff + 16 * b\<close> on, are combined with the key block \<open>K b\<close> and written to \<open>dst\<close> from
  \<open>dstOff + 16 * b\<close> on.
\<close>

definition xorStep ::
  "(nat \<Rightarrow> byte list) \<Rightarrow> byte list \<Rightarrow> nat \<Rightarrow> nat \<Rightarrow> nat \<Rightarrow> int \<Rightarrow> byte list \<Rightarrow> nat \<Rightarrow>
   byte list" where
  "xorStep K src srcOff dstOff n bc dst b =
     foldl (\<lambda>d i. d[dstOff + b * 16 + i := byteAt (K b) i XOR byteAt src (srcOff + b * 16 + i)])
       dst [0..<blockLength n bc b]"

text \<open>The buffers that \<open>encrypt\<close> and \<open>decrypt\<close> return, for the shift count \<open>sh\<close>.\<close>

definition encrypt_out :: "'ks env \<Rightarrow> byte list \<Rightarrow> byte list \<Rightarrow> int \<Rightarrow> int \<Rightarrow> byte list" where
  "encrypt_out env P pw nBits sh =
     foldl (xorStep (keyBlock env (Aes_keyExpansion env (deriveKey env pw nBits)) (replicate 8 0) sh)
              P 0 8 (length P) (js_ceil_div (int (length P)) 16))
       (replicate (length P + 8) 0) [0..<nat (js_ceil_div (int (length P)) 16)]"

definition decrypt_out :: "'ks env \<Rightarrow> byte list \<Rightarrow> byte list \<Rightarrow> int \<Rightarrow> int \<Rightarrow> byte list" where
  "decrypt_out env C pw nBits sh =
     foldl (xorStep (keyBlock env (Aes_keyExpansion env (deriveKey env pw nBits)) (take 8 C) sh)
              C 8 0 (length C - 8) (js_ceil_div (int (length C - 8)) 16))
       (replicate (length C - 8) 0) [0..<nat (js_ceil_div (int (length C - 8)) 16)]"

text \<open>
  Collaborators to run the functions on concrete inputs: a cipher that returns its block
  unchanged, a key schedule that is the key, a clock and a random source that give 0.
\<close>

definition identity_env :: "byte list env" where
  "identity_env =
     \<lparr>Aes_cipher = (\<lambda>block keySchedule. block), Aes_keyExpansion = (\<lambda>key. key),
      Date_getTime = 0, Math_random = 0\<rparr>"

section \<open>The shift count\<close>

subsection \<open>One shift to the left\<close>

lemma js_shl_1: "js_shl x 1 = (2 * x + 2 ^ 31) mod 2 ^ 32 - 2 ^ 31"
proof -
  have sh: "push_bit (nat (1 mod 32)) (word_of_int x :: 32 word) = word_of_int (2 * x)"
    by (simp add: push_bit_eq_mult)
  show ?thesis
    unfolding js_shl_def sh by (simp only: int_word_sint) simp
qed

lemma js_shl_small: "0 \<le> x \<Longrightarrow> x < 2 ^ 30 \<Longrightarrow> js_shl x 1 = 2 * x"
  by (simp add: js_shl_1)

lemma js_shl_mid:
  assumes "2 ^ 30 \<le> x" "x < 2 ^ 31"
  shows "js_shl x 1 < 0"
proof -
  have "(2 * x + 2147483648) mod 4294967296 = 2 * x - 2147483648"
    using assms by (intro int_mod_pos_eq [where q = 1]) simp_all
  then show ?thesis
    using assms by (simp add: js_shl_1)
qed

lemma js_shl_mod: "js_shl x 1 = js_shl (x mod 2 ^ 31) 1"
proof -
  have "(2 * x) mod (2 * 2 ^ 31) = 2 * (x mod 2 ^ 31)"
    by (simp only: mod_mult_mult1)
  then have "(2 * x) mod 2 ^ 32 = 2 * (x mod 2 ^ 31) mod 2 ^ 32"
    by simp
  then have "(2 * x + 2 ^ 31) mod 2 ^ 32 = (2 * (x mod 2 ^ 31) + 2 ^ 31) mod 2 ^ 32"
    by (rule mod_add_cong) simp
  then show ?thesis by (simp only: js_shl_1)
qed

subsection \<open>The loop\<close>

text \<open>Once \<open>x\<close> is 0 it stays 0 and is never negative: the loop does not end.\<close>

lemma leadingZeros_loop_Some_nonzero:
  assumes "leadingZeros_loop m x = Some y"
  shows "x \<noteq> 0"
proof -
  have "(case (m, x) of (m, x) \<Rightarrow> \<lambda>y. x \<noteq> 0) y"
  proof (rule leadingZeros_loop.raw_induct [where P = "\<lambda>m x y. x \<noteq> 0"])
    show "(case (m, x) of (a, b) \<Rightarrow> leadingZeros_loop a b) = Some y"
      using assms by simp
  next
    fix f :: "nat \<Rightarrow> int \<Rightarrow> nat option" and n x na
    assume IH: "\<And>x b y. f x b = Some y \<Longrightarrow> b \<noteq> 0"
      and st: "(if x < 0 then Some n else f (n + 1) (js_shl x 1)) = Some na"
    show "x \<noteq> 0"
    proof
      assume "x = 0"
      with st have "f (n + 1) 0 = Some na" by (simp add: js_shl_def)
      with IH show False by blast
    qed
  qed
  then show ?thesis by simp
qed

lemma leadingZeros_loop_zero: "leadingZeros_loop n 0 = None"
  using leadingZeros_loop_Some_nonzero [of n 0] by (cases "leadingZeros_loop n 0") auto

lemma leadingZeros_loop_step:
  "0 \<le> x \<Longrightarrow> leadingZeros_loop n x = leadingZeros_loop (n + 1) (js_shl x 1)"
  by (subst leadingZeros_loop.simps) simp

text \<open>A positive value below \<open>2^31\<close> whose top bit is \<open>k\<close> places under bit 30 leaves
  the loop after \<open>k + 1\<close> turns.\<close>

lemma leadingZeros_loop_level:
  "k \<le> 30 \<Longrightarrow> 2 ^ (30 - k) \<le> x \<Longrightarrow> x < 2 ^ (31 - k) \<Longrightarrow>
   leadingZeros_loop n x = Some (n + k + 1)"
proof (induction k arbitrary: n x)
  case 0
  then have neg: "js_shl x 1 < 0" by (simp add: js_shl_mid)
  have "0 \<le> x" using 0 by (smt (verit) zero_le_power)
  then show ?case
    by (subst leadingZeros_loop.simps, subst leadingZeros_loop.simps) (simp add: neg)
next
  case (Suc k)
  have pos: "0 < x" using Suc.prems by (smt (verit) zero_less_power)
  have "31 - Suc k \<le> 30" by simp
  then have "(2::int) ^ (31 - Suc k) \<le> 2 ^ 30" by (intro power_increasing) simp_all
  with Suc.prems have small: "x < 2 ^ 30" by linarith
  have e1: "30 - k = Suc (30 - Suc k)" and e2: "31 - k = Suc (31 - Suc k)"
    using Suc.prems by simp_all
  have "leadingZeros_loop (n + 1) (2 * x) = Some (n + 1 + k + 1)"
    using Suc.prems by (intro Suc.IH) (simp_all add: e1 e2)
  then show ?case
    using pos small by (subst leadingZeros_loop.simps) (simp add: js_shl_small)
qed

lemma leadingZeros_loop_bitlen:
  assumes "0 < x" "x < 2 ^ 31"
  shows "leadingZeros_loop n x = Some (n + 32 - nat (bitlen x))"
proof -
  define L where "L = nat (bitlen x)"
  have b: "2 ^ (L - 1) \<le> x" "x < 2 ^ L"
    using bitlen_bounds [OF assms(1)] bitlen_nonneg [of x]
    by (simp_all add: L_def nat_diff_distrib')
  have "bitlen x \<le> 31"
    using assms by (simp add: bitlen_le_iff_power)
  moreover have "1 \<le> bitlen x"
    using assms by (simp add: bitlen_ge_iff_power)
  ultimately have L: "1 \<le> L" "L \<le> 31" by (simp_all add: L_def)
  have "leadingZeros_loop n x = Some (n + (31 - L) + 1)"
    using b L by (intro leadingZeros_loop_level) simp_all
  then show ?thesis using L by (simp add: L_def)
qed

subsection \<open>\<open>leadingZeros\<close> and the shift count\<close>

lemma leadingZeros_small:
  assumes "0 < x" "x < 2 ^ 31"
  shows "leadingZeros x = Some (64 - nat (bitlen x))"
proof -
  have "bitlen x \<le> 31"
    using assms by (simp add: bitlen_le_iff_power)
  then show ?thesis
    using assms by (simp add: leadingZeros_def leadingZeros_loop_bitlen)
qed

lemma leadingZeros_negative: "x < 0 \<Longrightarrow> leadingZeros x = Some 32"
  by (simp add: leadingZeros_def leadingZeros_loop.simps)

lemma leadingZeros_low_bits:
  assumes "0 < x" "x mod 2 ^ 31 \<noteq> 0"
  shows "leadingZeros x = leadingZeros (x mod 2 ^ 31)"
proof -
  have "leadingZeros_loop 0 x = leadingZeros_loop (0 + 1) (js_shl x 1)"
    using assms by (intro leadingZeros_loop_step) simp
  also have "\<dots> = leadingZeros_loop (0 + 1) (js_shl (x mod 2 ^ 31) 1)"
    using js_shl_mod [of x] by simp
  also have "\<dots> = leadingZeros_loop 0 (x mod 2 ^ 31)"
    by (intro leadingZeros_loop_step [symmetric]) simp
  finally show ?thesis
    using assms by (simp add: leadingZeros_def)
qed

lemma leadingZeros_multiple:
  assumes "0 < x" "x mod 2 ^ 31 = 0"
  shows "leadingZeros x = None"
proof -
  have "leadingZeros_loop 0 x = leadingZeros_loop (0 + 1) (js_shl x 1)"
    using assms by (intro leadingZeros_loop_step) simp
  also have "js_shl x 1 = 0"
    using js_shl_mod [of x] assms by (simp add: js_shl_def)
  finally show ?thesis
    using assms by (simp add: leadingZeros_def leadingZeros_loop_zero)
qed

text \<open>The calls that never return are exactly those on a positive multiple of \<open>2^31\<close>.\<close>

lemma leadingZeros_None_iff: "leadingZeros x = None \<longleftrightarrow> 0 < x \<and> x mod 2 ^ 31 = 0"
proof (cases "0 < x \<and> x mod 2 ^ 31 = 0")
  case True
  then show ?thesis by (simp add: leadingZeros_multiple)
next
  case False
  have "leadingZeros x \<noteq> None"
  proof (cases "x \<le> 0")
    case True
    then show ?thesis
      by (cases "x = 0") (simp_all add: leadingZeros_negative, simp add: leadingZeros_def)
  next
    case pos: False
    with False have nz: "x mod 2 ^ 31 \<noteq> 0" by simp
    have "0 \<le> x mod 2 ^ 31" "x mod 2 ^ 31 < 2 ^ 31" by simp_all
    with nz have "leadingZeros (x mod 2 ^ 31) \<noteq> None"
      using leadingZeros_small [of "x mod 2 ^ 31"] by simp
    then show ?thesis using pos nz leadingZeros_low_bits [of x] by simp
  qed
  with False show ?thesis by blast
qed

lemma sequenceShift_None_iff:
  "sequenceShift sequence = None \<longleftrightarrow> (\<exists>s. sequence = Some s \<and> 0 < s \<and> s mod 2 ^ 31 = 0)"
  by (cases sequence) (simp_all add: sequenceShift_def leadingZeros_None_iff)

lemma sequenceShift_small:
  assumes "0 \<le> s" "s < 2 ^ 31"
  shows "sequenceShift (Some s) = Some (bitlen s)"
proof (cases "s = 0")
  case True
  then show ?thesis by (simp add: sequenceShift_def leadingZeros_def)
next
  case False
  moreover have "bitlen s \<le> 31" "0 \<le> bitlen s"
    using assms by (simp_all add: bitlen_le_iff_power bitlen_nonneg)
  ultimately show ?thesis
    using assms by (simp add: sequenceShift_def leadingZeros_small)
qed

lemma encrypt_no_shift:
  "sequenceShift sequence = None \<Longrightarrow> encrypt env plaintext password nBits sequence nonce = None"
  by (simp add: encrypt_def encrypt_trace_def)

section \<open>Bit operations\<close>

lemma js_ushr_arith: "js_ushr x k = x mod 2 ^ 32 div 2 ^ nat (k mod 32)"
proof -
  let ?n = "nat (k mod 32)" and ?w = "word_of_int x :: 32 word"
  have "uint (drop_bit ?n ?w) = drop_bit ?n (take_bit LENGTH(32) (uint ?w))"
    by (rule unsigned_drop_bit_eq)
  also have "uint ?w = take_bit LENGTH(32) x"
    by (rule uint_word_of_int_eq)
  finally show ?thesis
    unfolding js_ushr_def by (simp add: drop_bit_eq_div take_bit_eq_mod)
qed

lemma js_ushr_range: "0 \<le> js_ushr x k \<and> js_ushr x k < 2 ^ 32"
proof -
  have "0 \<le> x mod 2 ^ 32" "x mod 2 ^ 32 < (2 ^ 32 :: int)" by simp_all
  moreover have "x mod 2 ^ 32 div 2 ^ nat (k mod 32) \<le> x mod 2 ^ 32 div 1"
    by (intro zdiv_mono2) simp_all
  ultimately show ?thesis
    unfolding js_ushr_arith by (simp add: pos_imp_zdiv_nonneg_iff)
qed

lemma ToUint8_uint: "uint (ToUint8 x) = x mod 256"
  by (simp add: ToUint8_def uint_word_of_int)

lemma len16:
  assumes "length (cb :: 'a list) = 16"
  obtains x0 x1 x2 x3 x4 x5 x6 x7 x8 x9 x10 x11 x12 x13 x14 x15
  where "cb = [x0, x1, x2, x3, x4, x5, x6, x7, x8, x9, x10, x11, x12, x13, x14, x15]"
  using assms by (auto simp: numeral_eq_Suc length_Suc_conv)

lemma upt4: "[0..<4] = [0, 1, 2, 3]"
  by (simp add: upt_rec)

lemma bit_255: "bit (255 :: int) n \<longleftrightarrow> n < 8"
proof -
  have e: "(255 :: int) = mask 8" by (simp add: mask_eq_exp_minus_1)
  show ?thesis unfolding e by (simp add: bit_mask_iff)
qed

lemma ToUint8_mask: "ToUint8 (js_and x 255) = ToUint8 x"
  unfolding ToUint8_def js_and_def
  by (rule bit_word_eqI) (auto simp: bit_simps bit_255)

lemma encrypt_counter_eq:
  assumes "length cb = 16"
  shows "encrypt_counter cb b sh = take 8 cb @ counterBytes b sh"
proof -
  obtain x0 x1 x2 x3 x4 x5 x6 x7 x8 x9 x10 x11 x12 x13 x14 x15
    where cb: "cb = [x0, x1, x2, x3, x4, x5, x6, x7, x8, x9, x10, x11, x12, x13, x14, x15]"
    using assms by (rule len16)
  show ?thesis
    unfolding cb encrypt_counter_def counterBytes_def upt4 Let_def
    by (simp add: ToUint8_mask)
qed

lemma decrypt_counter_eq: "decrypt_counter cb b sh = encrypt_counter cb b sh"
  by (simp add: decrypt_counter_def encrypt_counter_def ToUint8_mask)

section \<open>Block lengths and buffer updates\<close>

lemma js_rem_nonneg: "0 \<le> x \<Longrightarrow> 0 < y \<Longrightarrow> js_rem x y = x mod y"
  by (cases "x = 0") (simp_all add: js_rem_def)

lemma js_ceil_div_16: "js_ceil_div x 16 = (x - 1) div 16 + 1"
proof -
  define q r where "q = (x - 1) div 16" and "r = (x - 1) mod 16"
  have e: "x - 1 = 16 * q + r" and r: "0 \<le> r" "r < 16"
    by (simp_all add: q_def r_def)
  have "- x = 16 * (- q - 1) + (15 - r)"
    using e by simp
  moreover have "0 \<le> 15 - r" "15 - r < 16"
    using r by simp_all
  ultimately have "(- x) div 16 = - q - 1"
    by (rule int_div_pos_eq)
  then show ?thesis
    by (simp add: js_ceil_div_def q_def)
qed

lemma blockLength_cover:
  assumes "m < nat (js_ceil_div (int n) 16)"
  shows "16 * m + blockLength n (js_ceil_div (int n) 16) m = min (16 * (m + 1)) n"
    and "blockLength n (js_ceil_div (int n) 16) m \<le> 16"
proof -
  define q r where "q = (int n - 1) div 16" and "r = (int n - 1) mod 16"
  have e: "int n - 1 = 16 * q + r" and r: "0 \<le> r" "r < 16"
    by (simp_all add: q_def r_def)
  have c: "js_ceil_div (int n) 16 = q + 1"
    by (simp add: js_ceil_div_16 q_def)
  have m: "int m \<le> q" using assms unfolding c by linarith
  then have "0 \<le> q" by linarith
  with e r have n: "0 \<le> int n - 1" by linarith
  have jr: "js_rem (int n - 1) 16 = r"
    using n by (simp add: js_rem_nonneg r_def)
  define bl where "bl = blockLength n (js_ceil_div (int n) 16) m"
  have L: "int bl = (if int m < q then 16 else r + 1)"
    using r by (simp add: bl_def blockLength_def c jr)
  have "16 * m + bl = min (16 * (m + 1)) n"
  proof (cases "int m < q")
    case True
    with L have "int bl = 16" by simp
    moreover have "16 * (int m + 1) \<le> int n"
    proof -
      from True have "int m + 1 \<le> q" by simp
      then have "16 * (int m + 1) \<le> 16 * q" by simp
      also have "16 * q \<le> int n" using e r by simp
      finally show ?thesis .
    qed
    ultimately show ?thesis by (simp add: min_def; linarith)
  next
    case False
    with m have mq: "int m = q" by linarith
    from False L have "int bl = r + 1" by simp
    with mq e have "int (16 * m + bl) = int n" by simp
    moreover have "int n \<le> 16 * (int m + 1)"
    proof -
      have "int n = 16 * q + (r + 1)" using e by simp
      also have "\<dots> \<le> 16 * q + 16" using r by simp
      finally show ?thesis by (simp add: mq)
    qed
    ultimately show ?thesis by (simp add: min_def; linarith)
  qed
  then show "16 * m + blockLength n (js_ceil_div (int n) 16) m = min (16 * (m + 1)) n"
    by (simp add: bl_def)
  have "int bl \<le> 16"
    using r unfolding L by simp
  then show "blockLength n (js_ceil_div (int n) 16) m \<le> 16"
    unfolding bl_def by linarith
qed

lemma length_foldl_update [simp]:
  "length (foldl (\<lambda>a i. a[g i := f i]) a xs) = length a"
  by (induction xs arbitrary: a) simp_all

lemma nth_foldl_update:
  "j < length a \<Longrightarrow>
   foldl (\<lambda>a i. a[off + i := f i]) a [0..<L] ! j =
     (if off \<le> j \<and> j < off + L then f (j - off) else a ! j)"
proof (induction L)
  case 0
  then show ?case by auto
next
  case (Suc L)
  show ?case
  proof (cases "j = off + L")
    case True
    with Suc.prems show ?thesis by simp
  next
    case False
    with Suc show ?thesis by (auto simp: nth_list_update)
  qed
qed

section \<open>The block loop\<close>

lemma length_xorStep [simp]: "length (xorStep K src so do n bc dst b) = length dst"
  by (simp add: xorStep_def)

lemma length_xorLoop [simp]:
  "length (foldl (xorStep K src so do n bc) dst bs) = length dst"
  by (induction bs arbitrary: dst) simp_all

lemma nth_xorStep:
  assumes "j < length dst"
  shows "xorStep K src so do n bc dst b ! j =
     (if do + b * 16 \<le> j \<and> j < do + b * 16 + blockLength n bc b
      then byteAt (K b) (j - (do + b * 16)) XOR byteAt src (so + b * 16 + (j - (do + b * 16)))
      else dst ! j)"
  unfolding xorStep_def using assms by (rule nth_foldl_update)

lemma nth_xorLoop:
  assumes "m \<le> nat (js_ceil_div (int n) 16)" and "j < length dst"
  shows "foldl (xorStep K src so do n (js_ceil_div (int n) 16)) dst [0..<m] ! j =
     (if do \<le> j \<and> j - do < min (16 * m) n
      then byteAt (K ((j - do) div 16)) ((j - do) mod 16) XOR byteAt src (so + (j - do))
      else dst ! j)"
  using assms
proof (induction m)
  case 0
  then show ?case by simp
next
  case (Suc m)
  let ?bc = "js_ceil_div (int n) 16"
  let ?prev = "foldl (xorStep K src so do n ?bc) dst [0..<m]"
  have m: "m < nat ?bc" using Suc.prems by simp
  note cover = blockLength_cover [OF m]
  have IH: "?prev ! j =
     (if do \<le> j \<and> j - do < min (16 * m) n
      then byteAt (K ((j - do) div 16)) ((j - do) mod 16) XOR byteAt src (so + (j - do))
      else dst ! j)"
    using Suc by simp
  have step: "foldl (xorStep K src so do n ?bc) dst [0..<Suc m] ! j =
     (if do + m * 16 \<le> j \<and> j < do + m * 16 + blockLength n ?bc m
      then byteAt (K m) (j - (do + m * 16)) XOR byteAt src (so + m * 16 + (j - (do + m * 16)))
      else ?prev ! j)"
    using Suc.prems by (simp add: nth_xorStep)
  show ?case
  proof (cases "do + m * 16 \<le> j \<and> j < do + m * 16 + blockLength n ?bc m")
    case True
    define k where "k = j - do"
    have k: "16 * m \<le> k" "k < 16 * m + blockLength n ?bc m" "do \<le> j" "j = do + k"
      using True unfolding k_def by linarith+
    with cover have "k < min (16 * Suc m) n" "k < 16 * m + 16" by simp_all
    moreover from k \<open>k < 16 * m + 16\<close> have d: "k div 16 = m"
      by (intro div_nat_eqI) simp_all
    moreover have "k mod 16 = k - 16 * m"
      unfolding d [symmetric] by (simp add: minus_mult_div_eq_mod)
    ultimately show ?thesis
      unfolding step using True k by (simp add: k_def [symmetric] mult.commute)
  next
    case False
    have "(do \<le> j \<and> j - do < min (16 * Suc m) n) \<longleftrightarrow> (do \<le> j \<and> j - do < min (16 * m) n)"
      using False cover by (auto simp: min_def split: if_splits)
    moreover have "foldl (xorStep K src so do n ?bc) dst [0..<Suc m] ! j = ?prev ! j"
      by (simp only: step False if_False)
    ultimately show ?thesis
      by (simp only: IH)
  qed
qed

lemma length_counterBytes [simp]: "length (counterBytes b sh) = 8"
  by (simp add: counterBytes_def)

lemma encrypt_block_eq:
  assumes "length cb = 16"
  shows "encrypt_block env ks P sh bc (cb, ct, tr) b =
     (take 8 cb @ counterBytes (int b) sh,
      xorStep (keyBlock env ks (take 8 cb) sh) P 0 8 (length P) bc ct b,
      tr @ [take 8 cb @ counterBytes (int b) sh])"
  using assms
  by (simp add: encrypt_block_def encrypt_counter_eq xorStep_def keyBlock_def blockLength_def
      Let_def add.assoc)

lemma decrypt_block_eq:
  assumes "length cb = 16"
  shows "decrypt_block env ks C sh bc (cb, pt) b =
     (take 8 cb @ counterBytes (int b) sh,
      xorStep (keyBlock env ks (take 8 cb) sh) C 8 0 (length pt) bc pt b)"
  using assms
  by (simp add: decrypt_block_def decrypt_counter_eq encrypt_counter_eq xorStep_def keyBlock_def
      blockLength_def Let_def add.assoc)

lemma encrypt_loop:
  assumes "length cb = 16"
  shows "\<exists>cb'. foldl (encrypt_block env ks P sh bc) (cb, ct, tr) [0..<m] =
           (cb', foldl (xorStep (keyBlock env ks (take 8 cb) sh) P 0 8 (length P) bc) ct [0..<m],
            tr @ map (\<lambda>b. take 8 cb @ counterBytes (int b) sh) [0..<m])
         \<and> length cb' = 16 \<and> take 8 cb' = take 8 cb"
proof (induction m)
  case 0
  show ?case using assms by simp
next
  case (Suc m)
  then obtain cb' where
    st: "foldl (encrypt_block env ks P sh bc) (cb, ct, tr) [0..<m] =
           (cb', foldl (xorStep (keyBlock env ks (take 8 cb) sh) P 0 8 (length P) bc) ct [0..<m],
            tr @ map (\<lambda>b. take 8 cb @ counterBytes (int b) sh) [0..<m])"
    and cb': "length cb' = 16" "take 8 cb' = take 8 cb"
    by blast
  show ?case
    using cb' assms by (simp add: st encrypt_block_eq)
qed

lemma decrypt_loop:
  assumes "length cb = 16"
  shows "\<exists>cb'. foldl (decrypt_block env ks C sh bc) (cb, pt) [0..<m] =
           (cb', foldl (xorStep (keyBlock env ks (take 8 cb) sh) C 8 0 (length pt) bc) pt [0..<m])
         \<and> length cb' = 16 \<and> take 8 cb' = take 8 cb"
proof (induction m)
  case 0
  show ?case using assms by simp
next
  case (Suc m)
  then obtain cb' where
    st: "foldl (decrypt_block env ks C sh bc) (cb, pt) [0..<m] =
           (cb', foldl (xorStep (keyBlock env ks (take 8 cb) sh) C 8 0 (length pt) bc) pt [0..<m])"
    and cb': "length cb' = 16" "take 8 cb' = take 8 cb"
    by blast
  show ?case
    using cb' assms by (simp add: st decrypt_block_eq)
qed

section \<open>What \<open>encrypt\<close> and \<open>decrypt\<close> return\<close>

lemma replicate_update_same: "(replicate N z)[k := z] = replicate N z"
  by (cases "k < N") (auto simp: list_eq_iff_nth_eq nth_list_update)

lemma foldl_update_replicate:
  "(\<And>i. i \<in> set xs \<Longrightarrow> f i = z) \<Longrightarrow>
   foldl (\<lambda>a i. a[g i := f i]) (replicate N z) xs = replicate N z"
  by (induction xs) (simp_all add: replicate_update_same)

lemma js_ushr_zero: "js_ushr 0 k = 0"
  by (simp add: js_ushr_def)

lemma js_and_zero: "js_and 0 k = 0"
  by (simp add: js_and_def)

lemma ToUint8_zero: "ToUint8 0 = 0"
  by (simp add: ToUint8_def)

lemma byteAt_replicate_zero: "byteAt (replicate N 0) i = 0"
  by (simp add: byteAt_def)

lemma cover_all: "min (16 * nat (js_ceil_div (int n) 16)) n = n"
proof -
  define q r where "q = (int n - 1) div 16" and "r = (int n - 1) mod 16"
  have e: "int n - 1 = 16 * q + r" and r: "r < 16"
    by (simp_all add: q_def r_def)
  have "int n = 16 * q + (r + 1)" using e by simp
  also have "\<dots> \<le> 16 * q + 16" using r by simp
  finally have "int n \<le> 16 * js_ceil_div (int n) 16"
    by (simp add: js_ceil_div_16 q_def)
  then have "n \<le> 16 * nat (js_ceil_div (int n) 16)" by linarith
  then show ?thesis by simp
qed

lemma encrypt_run_eq:
  "\<exists>cb'. encrypt_run env P pw nBits sh nonce =
     (cb', encrypt_out env P pw nBits sh,
      map (\<lambda>b. replicate 8 0 @ counterBytes (int b) sh)
        [0..<nat (js_ceil_div (int (length P)) 16)])"
proof -
  have z: "\<And>k. ToUint8 (js_and (js_ushr 0 k) 255) = 0"
    by (simp add: js_ushr_zero js_and_zero ToUint8_zero)
  have hdr: "encrypt_run env P pw nBits sh nonce =
     foldl (encrypt_block env (Aes_keyExpansion env (deriveKey env pw nBits)) P sh
              (js_ceil_div (int (length P)) 16))
       (replicate 16 0, replicate (length P + 8) 0, [])
       [0..<nat (js_ceil_div (int (length P)) 16)]"
    unfolding encrypt_run_def Let_def z
    by (simp only: foldl_update_replicate byteAt_replicate_zero)
  show ?thesis
    using encrypt_loop [of "replicate 16 0" env "Aes_keyExpansion env (deriveKey env pw nBits)"
        P sh "js_ceil_div (int (length P)) 16" "replicate (length P + 8) 0" "[]"
        "nat (js_ceil_div (int (length P)) 16)"]
    unfolding hdr encrypt_out_def by auto
qed

lemma length_encrypt_out [simp]: "length (encrypt_out env P pw nBits sh) = length P + 8"
  by (simp add: encrypt_out_def)

lemma encrypt_out_header: "j < 8 \<Longrightarrow> encrypt_out env P pw nBits sh ! j = 0"
  unfolding encrypt_out_def by (subst nth_xorLoop) simp_all

lemma encrypt_out_body:
  assumes "k < length P"
  shows "encrypt_out env P pw nBits sh ! (8 + k) =
     byteAt (keyBlock env (Aes_keyExpansion env (deriveKey env pw nBits)) (replicate 8 0) sh
               (k div 16)) (k mod 16) XOR P ! k"
  unfolding encrypt_out_def using assms
  by (subst nth_xorLoop) (simp_all add: cover_all byteAt_def)

lemma take8_encrypt_out: "take 8 (encrypt_out env P pw nBits sh) = replicate 8 0"
proof (rule nth_equalityI)
  show "length (take 8 (encrypt_out env P pw nBits sh)) = length (replicate 8 (0 :: byte))"
    by simp
next
  fix i
  assume "i < length (take 8 (encrypt_out env P pw nBits sh))"
  then have "i < 8" by simp
  then show "take 8 (encrypt_out env P pw nBits sh) ! i = replicate 8 0 ! i"
    by (simp add: encrypt_out_header)
qed

lemma encrypt_trace_valid:
  assumes "nBits = 128 \<or> nBits = 192 \<or> nBits = 256" and "sequenceShift sequence = Some sh"
  shows "encrypt_trace env P pw nBits sequence nonce =
     Some (Bytes (encrypt_out env P pw nBits sh),
           map (\<lambda>b. replicate 8 0 @ counterBytes (int b) sh)
             [0..<nat (js_ceil_div (int (length P)) 16)])"
proof -
  obtain cb' where "encrypt_run env P pw nBits sh nonce =
     (cb', encrypt_out env P pw nBits sh,
      map (\<lambda>b. replicate 8 0 @ counterBytes (int b) sh)
        [0..<nat (js_ceil_div (int (length P)) 16)])"
    using encrypt_run_eq by blast
  then show ?thesis
    using assms by (simp add: encrypt_trace_def)
qed

lemma encrypt_valid:
  assumes "nBits = 128 \<or> nBits = 192 \<or> nBits = 256" and "sequenceShift sequence = Some sh"
  shows "encrypt env P pw nBits sequence nonce = Some (Bytes (encrypt_out env P pw nBits sh))"
  by (simp add: encrypt_def encrypt_trace_valid [OF assms])

lemma encrypt_invalid:
  assumes "\<not> (nBits = 128 \<or> nBits = 192 \<or> nBits = 256)" and "sequenceShift sequence = Some sh"
  shows "encrypt env P pw nBits sequence nonce = Some (Str '''')"
  using assms by (simp add: encrypt_def encrypt_trace_def)

lemma decrypt_invalid:
  assumes "\<not> (nBits = 128 \<or> nBits = 192 \<or> nBits = 256)"
  shows "decrypt env C pw nBits sequence = Some (Inr (Str ''''))"
  using assms by (simp add: decrypt_def)

lemma decrypt_no_shift:
  assumes "nBits = 128 \<or> nBits = 192 \<or> nBits = 256" and "sequenceShift sequence = None"
  shows "decrypt env C pw nBits sequence = None"
  using assms by (auto simp add: decrypt_def)

lemma decrypt_short:
  assumes "nBits = 128 \<or> nBits = 192 \<or> nBits = 256" and "sequenceShift sequence = Some sh"
    and "length C < 8"
  shows "decrypt env C pw nBits sequence = Some (Inl RangeError)"
  using assms by (auto simp add: decrypt_def Let_def)

lemma decrypt_header:
  assumes "8 \<le> length C"
  shows "take 8 (foldl (\<lambda>cb i. cb[i := byteAt C i]) (replicate 16 0) [0..<8]) = take 8 C"
proof (rule nth_equalityI)
  show "length (take 8 (foldl (\<lambda>cb i. cb[i := byteAt C i]) (replicate 16 0) [0..<8])) =
        length (take 8 C)"
    using assms by simp
next
  fix i
  assume "i < length (take 8 (foldl (\<lambda>cb i. cb[i := byteAt C i]) (replicate 16 0) [0..<8]))"
  then have i: "i < 8" by simp
  then have "foldl (\<lambda>cb i. cb[i := byteAt C i]) (replicate 16 0) [0..<8] ! i = byteAt C i"
    using nth_foldl_update [of i "replicate 16 0" 0 "byteAt C" 8] by simp
  then show "take 8 (foldl (\<lambda>cb i. cb[i := byteAt C i]) (replicate 16 0) [0..<8]) ! i =
             take 8 C ! i"
    using i assms by (simp add: byteAt_def)
qed

lemma decrypt_valid:
  assumes "nBits = 128 \<or> nBits = 192 \<or> nBits = 256" and "sequenceShift sequence = Some sh"
    and "8 \<le> length C"
  shows "decrypt env C pw nBits sequence = Some (Inr (Bytes (decrypt_out env C pw nBits sh)))"
proof -
  let ?ks = "Aes_keyExpansion env (deriveKey env pw nBits)"
  let ?cb = "foldl (\<lambda>cb i. cb[i := byteAt C i]) (replicate 16 0) [0..<8]"
  let ?bc = "js_ceil_div (int (length C - 8)) 16"
  let ?pt = "replicate (length C - 8) (0 :: byte)"
  have n: "nat (int (length C) - 8) = length C - 8" "int (length C) - 8 = int (length C - 8)"
    using assms(3) by simp_all
  have "length ?cb = 16" by simp
  then obtain cb' where
    "foldl (decrypt_block env ?ks C sh ?bc) (?cb, ?pt) [0..<nat ?bc] =
       (cb', foldl (xorStep (keyBlock env ?ks (take 8 ?cb) sh) C 8 0 (length ?pt) ?bc) ?pt
               [0..<nat ?bc])"
    using decrypt_loop [of ?cb env ?ks C sh ?bc ?pt "nat ?bc"] by blast
  then have loop: "foldl (decrypt_block env ?ks C sh ?bc) (?cb, ?pt) [0..<nat ?bc] =
       (cb', decrypt_out env C pw nBits sh)"
    unfolding decrypt_out_def decrypt_header [OF assms(3)] by simp
  have "\<not> int (length C) - 8 < 0" using assms(3) by simp
  then show ?thesis
    unfolding decrypt_def Let_def n using assms(1,2) by (simp add: loop)
qed

lemma length_decrypt_out [simp]: "length (decrypt_out env C pw nBits sh) = length C - 8"
  by (simp add: decrypt_out_def)

lemma decrypt_out_nth:
  assumes "k < length C - 8"
  shows "decrypt_out env C pw nBits sh ! k =
     byteAt (keyBlock env (Aes_keyExpansion env (deriveKey env pw nBits)) (take 8 C) sh
               (k div 16)) (k mod 16) XOR C ! (8 + k)"
proof -
  let ?K = "keyBlock env (Aes_keyExpansion env (deriveKey env pw nBits)) (take 8 C) sh"
  let ?n = "length C - 8"
  have "decrypt_out env C pw nBits sh ! k =
     (if 0 \<le> k \<and> k - 0 < min (16 * nat (js_ceil_div (int ?n) 16)) ?n
      then byteAt (?K ((k - 0) div 16)) ((k - 0) mod 16) XOR byteAt C (8 + (k - 0))
      else replicate ?n 0 ! k)"
    unfolding decrypt_out_def using assms by (intro nth_xorLoop) simp_all
  also have "\<dots> = byteAt (?K (k div 16)) (k mod 16) XOR byteAt C (8 + k)"
    using assms by (simp only: cover_all) simp
  also have "byteAt C (8 + k) = C ! (8 + k)"
    using assms by (auto simp: byteAt_def)
  finally show ?thesis .
qed

lemma xor_cancel: "a XOR (a XOR b) = (b :: byte)"
proof -
  have "a XOR (a XOR b) = (a XOR a) XOR b" by (simp only: xor.assoc)
  then show ?thesis by simp
qed

lemma decrypt_out_encrypt_out:
  "decrypt_out env (encrypt_out env P pw nBits sh) pw nBits sh = P"
proof (rule nth_equalityI)
  show "length (decrypt_out env (encrypt_out env P pw nBits sh) pw nBits sh) = length P"
    by simp
next
  fix k
  assume "k < length (decrypt_out env (encrypt_out env P pw nBits sh) pw nBits sh)"
  then have k: "k < length P" by simp
  then have "k < length (encrypt_out env P pw nBits sh) - 8" by simp
  then have "decrypt_out env (encrypt_out env P pw nBits sh) pw nBits sh ! k =
     byteAt (keyBlock env (Aes_keyExpansion env (deriveKey env pw nBits))
               (take 8 (encrypt_out env P pw nBits sh)) sh (k div 16)) (k mod 16)
     XOR encrypt_out env P pw nBits sh ! (8 + k)"
    by (rule decrypt_out_nth)
  also have "\<dots> = P ! k"
    by (simp only: take8_encrypt_out encrypt_out_body [OF k] xor_cancel)
  finally show "decrypt_out env (encrypt_out env P pw nBits sh) pw nBits sh ! k = P ! k" .
qed

lemma decrypt_encrypt_valid:
  assumes "nBits = 128 \<or> nBits = 192 \<or> nBits = 256" and "sequenceShift sequence = Some sh"
  shows "decrypt_encrypt env P pw nBits sequence nonce = Some (Inr (Bytes P))"
proof -
  have "decrypt env (encrypt_out env P pw nBits sh) pw nBits sequence =
        Some (Inr (Bytes (decrypt_out env (encrypt_out env P pw nBits sh) pw nBits sh)))"
    using assms by (intro decrypt_valid) simp_all
  then show ?thesis
    by (simp add: decrypt_encrypt_def encrypt_valid [OF assms] decrypt_out_encrypt_out)
qed

section \<open>The bytes of the counter\<close>

lemma div_mod_256_eq:
  fixes x y :: int
  assumes "x mod 256 = y mod 256" "x div 256 = y div 256"
  shows "x = y"
proof -
  have "x = 256 * (x div 256) + x mod 256" by simp
  also have "\<dots> = 256 * (y div 256) + y mod 256" by (simp only: assms)
  also have "\<dots> = y" by simp
  finally show ?thesis .
qed

lemma top_byte_range:
  fixes z :: int
  assumes "0 \<le> z" "z < 2 ^ 32"
  shows "0 \<le> z div 16777216" "z div 16777216 < 256"
proof -
  show "0 \<le> z div 16777216"
    using assms(1) by (simp add: pos_imp_zdiv_nonneg_iff)
  have "16777216 * (z div 16777216) + z mod 16777216 = z"
    by (rule mult_div_mod_eq)
  moreover have "0 \<le> z mod 16777216"
    by (rule pos_mod_sign) simp
  moreover from assms(2) have "z < 4294967296" by simp
  ultimately show "z div 16777216 < 256" by linarith
qed

lemma bytes_determine:
  fixes x y :: int
  assumes x: "0 \<le> x" "x < 2 ^ 32" and y: "0 \<le> y" "y < 2 ^ 32"
    and e: "\<And>c. c < 4 \<Longrightarrow> byte_of x c = byte_of y c"
  shows "x = y"
proof -
  have n2: "z div 65536 = z div 256 div 256" for z :: int
    using zdiv_zmult2_eq [of 256 z 256] by simp
  have n3: "z div 16777216 = z div 65536 div 256" for z :: int
    using zdiv_zmult2_eq [of 256 z 65536] by simp
  have e0: "x mod 256 = y mod 256" using e [of 0] by (simp add: byte_of_def)
  have e1: "x div 256 mod 256 = y div 256 mod 256" using e [of 1] by (simp add: byte_of_def)
  have e2: "x div 65536 mod 256 = y div 65536 mod 256" using e [of 2] by (simp add: byte_of_def)
  have e3: "x div 16777216 mod 256 = y div 16777216 mod 256"
    using e [of 3] by (simp add: byte_of_def)
  have "x div 16777216 mod 256 = x div 16777216" "y div 16777216 mod 256 = y div 16777216"
    using top_byte_range [OF x] top_byte_range [OF y] by simp_all
  with e3 have d3: "x div 16777216 = y div 16777216" by simp
  have "x div 65536 div 256 = x div 16777216" by (rule n3 [symmetric])
  also note d3
  also have "y div 16777216 = y div 65536 div 256" by (rule n3)
  finally have "x div 65536 div 256 = y div 65536 div 256" .
  with e2 have d2: "x div 65536 = y div 65536" by (rule div_mod_256_eq)
  have "x div 256 div 256 = x div 65536" by (rule n2 [symmetric])
  also note d2
  also have "y div 65536 = y div 256 div 256" by (rule n2)
  finally have "x div 256 div 256 = y div 256 div 256" .
  with e1 have "x div 256 = y div 256" by (rule div_mod_256_eq)
  with e0 show ?thesis by (rule div_mod_256_eq)
qed

lemma counterBytes_low:
  assumes "0 \<le> b" "b < 2 ^ 32" "c < 4"
  shows "uint (counterBytes b sh ! (7 - c)) = byte_of b c"
proof -
  from assms(3) have "c = 0 \<or> c = 1 \<or> c = 2 \<or> c = 3" by linarith
  then show ?thesis
    using assms(1,2)
    by (auto simp: counterBytes_def ToUint8_uint js_ushr_arith byte_of_def)
qed

lemma counterBytes_high:
  assumes "0 \<le> b" "b < 2 ^ 32" "c < 4"
  shows "uint (counterBytes b sh ! (3 - c)) = byte_of (b div 2 ^ nat (sh mod 32)) c"
proof -
  have r: "0 \<le> js_ushr b sh \<and> js_ushr b sh < 2 ^ 32" by (rule js_ushr_range)
  have v: "js_ushr b sh = b div 2 ^ nat (sh mod 32)"
    using assms(1,2) by (simp add: js_ushr_arith)
  from assms(3) have "c = 0 \<or> c = 1 \<or> c = 2 \<or> c = 3" by linarith
  then show ?thesis
    using r unfolding v [symmetric]
    by (auto simp: counterBytes_def ToUint8_uint js_ushr_arith [of "js_ushr b sh"] byte_of_def)
qed

lemma counterBytes_inj:
  assumes "0 \<le> b1" "b1 < 2 ^ 32" "0 \<le> b2" "b2 < 2 ^ 32"
    and "counterBytes b1 sh = counterBytes b2 sh"
  shows "b1 = b2"
proof (rule bytes_determine)
  fix c :: nat
  assume c: "c < 4"
  have "byte_of b1 c = uint (counterBytes b1 sh ! (7 - c))"
    using assms(1,2) c by (simp add: counterBytes_low)
  also have "\<dots> = uint (counterBytes b2 sh ! (7 - c))"
    by (simp only: assms(5))
  also have "\<dots> = byte_of b2 c"
    using assms(3,4) c by (simp add: counterBytes_low)
  finally show "byte_of b1 c = byte_of b2 c" .
qed (use assms in simp_all)

lemma distinct_counter_blocks:
  assumes "int m \<le> 2 ^ 32"
  shows "distinct (map (\<lambda>b. hdr @ counterBytes (int b) sh) [0..<m])"
proof -
  have "inj_on (\<lambda>b. hdr @ counterBytes (int b) sh) (set [0..<m])"
  proof (rule inj_onI)
    fix b1 b2
    assume b: "b1 \<in> set [0..<m]" "b2 \<in> set [0..<m]"
      and eq: "hdr @ counterBytes (int b1) sh = hdr @ counterBytes (int b2) sh"
    from b assms have "int b1 < 2 ^ 32" "int b2 < 2 ^ 32" by simp_all
    moreover from eq have "counterBytes (int b1) sh = counterBytes (int b2) sh" by simp
    ultimately have "int b1 = int b2" by (intro counterBytes_inj) simp_all
    then show "b1 = b2" by simp
  qed
  then show ?thesis by (simp add: distinct_map)
qed

section \<open>More on the shift count and on the counter block\<close>

lemma sequenceShift_absent: "sequenceShift None = Some 8"
  by (simp add: sequenceShift_def)

lemma sequenceShift_2_63: "sequenceShift (Some (2 ^ 63)) = None"
proof -
  have "leadingZeros (2 ^ 63) = None" by (simp add: leadingZeros_multiple)
  then show ?thesis by (simp add: sequenceShift_def)
qed

lemma sequenceShift_2_31_1: "sequenceShift (Some (2 ^ 31 + 1)) = Some 1"
proof -
  have "leadingZeros (2 ^ 31 + 1) = leadingZeros ((2 ^ 31 + 1) mod 2 ^ 31)"
    by (rule leadingZeros_low_bits) simp_all
  also have "\<dots> = leadingZeros 1" by simp
  also have "\<dots> = Some (64 - nat (bitlen 1))" by (rule leadingZeros_small) simp_all
  also have "bitlen 1 = 1" by (simp add: compute_bitlen)
  finally show ?thesis by (simp add: sequenceShift_def)
qed

lemma sequenceShift_2_31_2: "sequenceShift (Some (2 ^ 31 + 2)) = Some 2"
proof -
  have "leadingZeros (2 ^ 31 + 2) = leadingZeros ((2 ^ 31 + 2) mod 2 ^ 31)"
    by (rule leadingZeros_low_bits) simp_all
  also have "\<dots> = leadingZeros 2" by simp
  also have "\<dots> = Some (64 - nat (bitlen 2))" by (rule leadingZeros_small) simp_all
  also have "bitlen 2 = 2" by (simp add: compute_bitlen)
  finally show ?thesis by (simp add: sequenceShift_def)
qed

text \<open>The sequence reaches the result of either function only through the shift count.\<close>

lemma encrypt_same_shift:
  "sequenceShift s1 = sequenceShift s2 \<Longrightarrow>
   encrypt env plaintext password nBits s1 nonce = encrypt env plaintext password nBits s2 nonce"
  by (simp add: encrypt_def encrypt_trace_def)

lemma decrypt_same_shift:
  "sequenceShift s1 = sequenceShift s2 \<Longrightarrow>
   decrypt env ciphertext password nBits s1 = decrypt env ciphertext password nBits s2"
  by (simp add: decrypt_def)

text \<open>Below \<open>2^31\<close> two sequences of one bit length give one ciphertext, and either
  of them decrypts it.\<close>

lemma same_bit_length_same_ciphertext:
  assumes "0 \<le> s1" "s1 < 2 ^ 31" "0 \<le> s2" "s2 < 2 ^ 31" "bitlen s1 = bitlen s2"
    and "nBits = 128 \<or> nBits = 192 \<or> nBits = 256"
  shows "encrypt env plaintext password nBits (Some s1) nonce =
         encrypt env plaintext password nBits (Some s2) nonce"
    and "\<exists>c. encrypt env plaintext password nBits (Some s1) nonce = Some (Bytes c)
           \<and> decrypt env c password nBits (Some s2) = Some (Inr (Bytes plaintext))"
proof -
  have sh: "sequenceShift (Some s1) = Some (bitlen s1)" "sequenceShift (Some s2) = Some (bitlen s1)"
    using assms(1-5) by (simp_all add: sequenceShift_small)
  then show "encrypt env plaintext password nBits (Some s1) nonce =
         encrypt env plaintext password nBits (Some s2) nonce"
    by (intro encrypt_same_shift) simp
  have "decrypt env (encrypt_out env plaintext password nBits (bitlen s1)) password nBits (Some s2) =
      Some (Inr (Bytes (decrypt_out env (encrypt_out env plaintext password nBits (bitlen s1))
         password nBits (bitlen s1))))"
    using assms(6) sh(2) by (intro decrypt_valid) simp_all
  then show "\<exists>c. encrypt env plaintext password nBits (Some s1) nonce = Some (Bytes c)
           \<and> decrypt env c password nBits (Some s2) = Some (Inr (Bytes plaintext))"
    using encrypt_valid [OF assms(6) sh(1), of env plaintext password nonce]
    by (simp add: decrypt_out_encrypt_out)
qed

lemma encrypt_counter_nth:
  assumes "length counterBlock = 16"
  shows "8 \<le> i \<Longrightarrow> i < 16 \<Longrightarrow>
         encrypt_counter counterBlock b sh ! i = counterBytes b sh ! (i - 8)"
    and "take 8 (encrypt_counter counterBlock b sh) = take 8 counterBlock"
  using assms by (simp_all add: encrypt_counter_eq nth_append)

lemma encrypt_counter_bytes:
  assumes "length counterBlock = 16" and "b < 2 ^ 32" and "c < 4"
  shows "uint (encrypt_counter counterBlock (int b) sequence ! (15 - c)) = byte_of (int b) c"
    and "uint (encrypt_counter counterBlock (int b) sequence ! (11 - c)) =
           byte_of (int b div 2 ^ nat (sequence mod 32)) c"
proof -
  have b: "0 \<le> int b" "int b < 2 ^ 32"
    using assms(2) by simp_all
  have "encrypt_counter counterBlock (int b) sequence ! (15 - c) =
        counterBytes (int b) sequence ! (15 - c - 8)"
    using assms(1,3) by (intro encrypt_counter_nth) simp_all
  moreover have "15 - c - 8 = 7 - c" by simp
  ultimately show "uint (encrypt_counter counterBlock (int b) sequence ! (15 - c)) =
      byte_of (int b) c"
    using counterBytes_low [OF b assms(3)] by simp
  have "encrypt_counter counterBlock (int b) sequence ! (11 - c) =
        counterBytes (int b) sequence ! (11 - c - 8)"
    using assms(1,3) by (intro encrypt_counter_nth) simp_all
  moreover have "11 - c - 8 = 3 - c" by simp
  ultimately show "uint (encrypt_counter counterBlock (int b) sequence ! (11 - c)) =
      byte_of (int b div 2 ^ nat (sequence mod 32)) c"
    using counterBytes_high [OF b assms(3)] by simp
qed

text \<open>With the cipher that returns its block, byte 11 of the counter block of turn 2
  is byte 51 of the ciphertext of 48 zero bytes.\<close>

lemma identity_block_2_byte_11:
  "encrypt_out identity_env (replicate 48 0) pw 128 sh ! 51 =
   ToUint8 (js_ushr (js_ushr 2 sh) 0)"
proof -
  have "encrypt_out identity_env (replicate 48 0) pw 128 sh ! (8 + 43) =
     byteAt (keyBlock identity_env (Aes_keyExpansion identity_env (deriveKey identity_env pw 128))
               (replicate 8 0) sh (43 div 16)) (43 mod 16) XOR replicate 48 0 ! 43"
    by (rule encrypt_out_body) simp
  then show ?thesis
    by (simp add: keyBlock_def identity_env_def byteAt_def nth_append counterBytes_def)
qed

lemma cipher_inputs_33:
  assumes "sequenceShift sequence = Some sh"
  shows "map_option snd (encrypt_trace env (replicate 33 0) password 128 sequence nonce) =
     Some [replicate 8 0 @ counterBytes 0 sh, replicate 8 0 @ counterBytes 1 sh,
           replicate 8 0 @ counterBytes 2 sh]"
proof -
  have c: "nat (js_ceil_div (int (length (replicate 33 (0 :: byte)))) 16) = 3"
    by (simp add: js_ceil_div_def)
  have u: "[0..<3] = [0, 1, 2]"
    by (simp add: upt_rec)
  have "(128 :: int) = 128 \<or> (128 :: int) = 192 \<or> (128 :: int) = 256" by simp
  then show ?thesis
    by (simp only: encrypt_trace_valid [OF _ assms] c u) simp
qed

section \<open>Calls whose shift count is obtained\<close>

text \<open>
  For a supported key size, and a sequence whose shift count is obtained (an absent one,
  or one that is not a positive multiple of \<open>2^31\<close>), \<open>encrypt\<close> returns a buffer 8 bytes
  longer than the plaintext, the empty plaintext included, and \<open>decrypt\<close> on a ciphertext
  of at least 8 bytes returns a buffer 8 bytes shorter.
\<close>

lemma output_lengths_when_shift_returns:
  assumes "nBits = 128 \<or> nBits = 192 \<or> nBits = 256"
    and "sequenceShift sequence = Some sh"
  shows "(\<exists>c. encrypt env plaintext password nBits sequence nonce = Some (Bytes c)
              \<and> length c = length plaintext + 8)
       \<and> (8 \<le> length ciphertext \<longrightarrow>
            (\<exists>p. decrypt env ciphertext password nBits sequence = Some (Inr (Bytes p))
                \<and> length p = length ciphertext - 8))"
  using encrypt_valid [OF assms, of env plaintext password nonce]
    decrypt_valid [OF assms, of ciphertext env password]
  by simp

lemma output_lengths_example:
  "(\<exists>c. encrypt identity_env [] [7] 128 None None = Some (Bytes c) \<and> length c = 8)
   \<and> (\<exists>c. encrypt identity_env [1, 2, 3] [7] 256 (Some 5) None = Some (Bytes c) \<and> length c = 11)
   \<and> (\<exists>p. decrypt identity_env [0, 0, 0, 0, 0, 0, 0, 0, 9] [7] 128 None = Some (Inr (Bytes p))
          \<and> length p = 1)"
proof -
  have s: "sequenceShift (Some 5) = Some (bitlen 5)"
    by (rule sequenceShift_small) simp_all
  show ?thesis
    using output_lengths_when_shift_returns [of 128 None 8 identity_env "[]" "[7]" None "[0, 0, 0, 0, 0, 0, 0, 0, 9]"]
      output_lengths_when_shift_returns [of 256 "Some 5" "bitlen 5" identity_env "[1, 2, 3]" "[7]" None "[]"]
    by (simp add: sequenceShift_absent s)
qed

text \<open>
  Under the same conditions \<open>decrypt\<close> on a ciphertext shorter than 8 bytes fails with
  the \<open>RangeError\<close> of the negative buffer length and returns nothing, and on a ciphertext
  of exactly 8 bytes it returns the empty byte sequence.
\<close>

lemma decrypt_short_ciphertext_when_shift_returns:
  assumes "nBits = 128 \<or> nBits = 192 \<or> nBits = 256"
    and "sequenceShift sequence = Some sh"
  shows "(length ciphertext < 8 \<longrightarrow>
            decrypt env ciphertext password nBits sequence = Some (Inl RangeError))
       \<and> (length ciphertext = 8 \<longrightarrow>
            decrypt env ciphertext password nBits sequence = Some (Inr (Bytes [])))"
proof (intro conjI impI)
  assume "length ciphertext < 8"
  with assms show "decrypt env ciphertext password nBits sequence = Some (Inl RangeError)"
    by (rule decrypt_short)
next
  assume l: "length ciphertext = 8"
  then have "decrypt env ciphertext password nBits sequence =
             Some (Inr (Bytes (decrypt_out env ciphertext password nBits sh)))"
    using assms by (intro decrypt_valid) simp_all
  moreover have "decrypt_out env ciphertext password nBits sh = []"
    using l by (intro length_0_conv [THEN iffD1]) simp
  ultimately show "decrypt env ciphertext password nBits sequence = Some (Inr (Bytes []))"
    by simp
qed

lemma decrypt_short_ciphertext_example:
  "decrypt identity_env [1, 2, 3] [7] 128 None = Some (Inl RangeError)
   \<and> decrypt identity_env [1, 2, 3, 4, 5, 6, 7, 8] [7] 128 None = Some (Inr (Bytes []))"
  using decrypt_short_ciphertext_when_shift_returns [of 128 None 8 "[1, 2, 3]" identity_env "[7]"]
    decrypt_short_ciphertext_when_shift_returns [of 128 None 8 "[1, 2, 3, 4, 5, 6, 7, 8]" identity_env "[7]"]
  by (simp add: sequenceShift_absent)

section \<open>The claims\<close>

text \<open>
  C1. The claim: for every plaintext, password, supported key size, nonce and sequence
  (supplied or absent), \<open>decrypt\<close> applied to the result of \<open>encrypt\<close> returns the
  plaintext. The code at the sequence \<open>2^63\<close>: \<open>encrypt\<close> never returns, so there is
  nothing to decrypt and the two calls of the README never deliver a result.
\<close>

theorem roundtrip_never_returns_at_2_63:
  "decrypt_encrypt env input password nBits (Some (2 ^ 63)) nonce = None"
proof -
  have "encrypt env input password nBits (Some (2 ^ 63)) nonce = None"
    by (rule encrypt_no_shift) (rule sequenceShift_2_63)
  then show ?thesis
    by (simp add: decrypt_encrypt_def)
qed

text \<open>
  C2. The claim: \<open>encrypt\<close> and \<open>decrypt\<close> run to completion on every input, and the
  bit-length computation ends for every supplied sequence, \<open>2^63\<close> and the other
  multiples of \<open>2^32\<close> among them. The code at \<open>sequence = 2^63\<close>: ToInt32 of it is 0, the
  first \<open>x << 1\<close> gives 0, which is never negative, so \<open>leadingZeros\<close> does not return, and
  neither does \<open>encrypt\<close> (for any \<open>nBits\<close>) nor \<open>decrypt\<close> (for a supported one).
\<close>

theorem leadingZeros_never_returns_at_2_63:
  "leadingZeros (2 ^ 63) = None
   \<and> leadingZeros (2 ^ 32) = None
   \<and> encrypt env plaintext password nBits (Some (2 ^ 63)) nonce = None
   \<and> decrypt env ciphertext password 128 (Some (2 ^ 63)) = None"
proof -
  have a: "leadingZeros (2 ^ 63) = None" and b: "leadingZeros (2 ^ 32) = None"
    by (simp_all add: leadingZeros_multiple)
  from a have s: "sequenceShift (Some (2 ^ 63)) = None"
    by (simp add: sequenceShift_def)
  show ?thesis
    using a b s by (simp add: encrypt_no_shift decrypt_def)
qed

text \<open>
  C3. The claim: the first 8 bytes of the result of \<open>encrypt\<close> pack the nonce \<open>N\<close>, with
  \<open>N mod 1000\<close> in bytes 0 and 1 and \<open>N div 1000\<close> in bytes 4 to 7. The code at \<open>N = 1\<close>,
  for any plaintext and password: the statement that sets the nonce fields to 0 runs
  before they are packed, so the 8 bytes are 0, where the claim has byte 0 equal to 1.
\<close>

theorem encrypt_header_is_zero:
  "\<exists>c. encrypt env plaintext password 128 None (Some 1) = Some (Bytes c)
       \<and> take 8 c = [0, 0, 0, 0, 0, 0, 0, 0]"
proof -
  have "encrypt env plaintext password 128 None (Some 1) =
        Some (Bytes (encrypt_out env plaintext password 128 8))"
    by (rule encrypt_valid) (simp_all add: sequenceShift_absent)
  moreover have "replicate 8 (0 :: byte) = [0, 0, 0, 0, 0, 0, 0, 0]"
    by (simp add: numeral_eq_Suc)
  then have "take 8 (encrypt_out env plaintext password 128 8) = [0, 0, 0, 0, 0, 0, 0, 0]"
    by (simp only: take8_encrypt_out)
  ultimately show ?thesis by blast
qed

text \<open>
  C4. The claim: the shift count is 8 for an absent sequence and \<open>64 - bitlength s\<close> for
  a supplied \<open>s\<close>, so 64 for a supplied 0. The code computes \<open>64 - leadingZeros s\<close>, which
  is the bit length itself: 1 has bit length 1 and gets the shift count 1, not 63, and 0
  gets 0, not 64.
\<close>

theorem shift_is_not_64_minus_bit_length:
  "sequenceShift (Some 1) = Some 1
   \<and> sequenceShift (Some 1) \<noteq> Some (64 - bitlen 1)
   \<and> sequenceShift (Some 0) \<noteq> Some 64"
proof -
  have "sequenceShift (Some 1) = Some (bitlen 1)" "sequenceShift (Some 0) = Some (bitlen 0)"
    by (simp_all add: sequenceShift_small)
  moreover have "bitlen 1 = 1" by (simp add: compute_bitlen)
  ultimately show ?thesis by simp
qed

text \<open>
  C4 as the code has it: the shift count is 8 for an absent sequence and the bit length
  of \<open>s\<close> for a supplied \<open>s\<close> with \<open>0 \<le> s < 2^31\<close>; a supplied 0 gets the shift count 0, which
  differs from the 8 of an absent one.
\<close>

theorem shift_is_bit_length:
  assumes "0 \<le> s" and "s < 2 ^ 31"
  shows "sequenceShift None = Some 8
         \<and> sequenceShift (Some s) = Some (bitlen s)
         \<and> sequenceShift (Some 0) = Some 0
         \<and> sequenceShift (Some 0) \<noteq> sequenceShift None"
proof -
  have "sequenceShift (Some 0) = Some (bitlen 0)"
    by (rule sequenceShift_small) simp_all
  then show ?thesis
    using assms by (simp add: sequenceShift_small) (simp add: sequenceShift_def)
qed

theorem shift_is_bit_length_witness:
  "(0::int) \<le> 5 \<and> (5::int) < 2 ^ 31 \<and> sequenceShift (Some 5) = Some 3"
proof -
  have "bitlen 5 = 3" by (simp add: compute_bitlen)
  then show ?thesis using shift_is_bit_length [of 5] by simp
qed

text \<open>
  C5. The claim: bytes 15 to 12 of the counter block hold bytes 0 to 3 of the block
  number, and bytes 11 to 8 hold bytes 0 to 3 of the sequence shifted right by the shift
  count. The code at a supplied sequence 0 (shift count 0) and block number 1: byte 11
  holds 1, in \<open>encrypt\<close> and in \<open>decrypt\<close>, where byte 0 of \<open>0 >> 0\<close> is 0. What is shifted
  is the block number: the sequence itself is gone once its shift count is derived.
\<close>

theorem counter_high_word_is_not_the_sequence:
  "sequenceShift (Some 0) = Some 0
   \<and> uint (encrypt_counter (replicate 16 0) 1 0 ! 11) = 1
   \<and> uint (decrypt_counter (replicate 16 0) 1 0 ! 11) = 1
   \<and> byte_of (0 div 2 ^ 0) 0 = 0"
proof -
  have "uint (encrypt_counter (replicate 16 0) (int 1) 0 ! (11 - 0)) =
        byte_of (int 1 div 2 ^ nat (0 mod 32)) 0"
    by (rule encrypt_counter_bytes) simp_all
  then have "uint (encrypt_counter (replicate 16 0) 1 0 ! 11) = 1"
    by (simp add: byte_of_def)
  then show ?thesis
    by (simp add: decrypt_counter_eq byte_of_def sequenceShift_def leadingZeros_def)
qed

text \<open>
  C5 as the code has it: for a block number \<open>b\<close> below \<open>2^32\<close> and a shift count
  \<open>sequence\<close>, bytes 15, 14, 13, 12 of the counter block hold bytes 0 to 3 of \<open>b\<close>, and
  bytes 11, 10, 9, 8 hold bytes 0 to 3 of \<open>b\<close> shifted right by \<open>sequence mod 32\<close> places,
  the least significant byte in byte 15 and in byte 11; \<open>decrypt\<close> builds the same
  block as \<open>encrypt\<close>.
\<close>

theorem counter_block_bytes:
  assumes "length counterBlock = 16" and "b < 2 ^ 32" and "c < 4"
  shows "uint (encrypt_counter counterBlock (int b) sequence ! (15 - c)) = byte_of (int b) c
       \<and> uint (encrypt_counter counterBlock (int b) sequence ! (11 - c)) =
           byte_of (int b div 2 ^ nat (sequence mod 32)) c
       \<and> decrypt_counter counterBlock (int b) sequence =
           encrypt_counter counterBlock (int b) sequence"
  using encrypt_counter_bytes [OF assms, of sequence] by (simp add: decrypt_counter_eq)

theorem counter_block_bytes_witness:
  "uint (encrypt_counter (replicate 16 0) 258 8 ! 14) = 1
   \<and> uint (encrypt_counter (replicate 16 0) 258 8 ! 11) = 1
   \<and> decrypt_counter (replicate 16 0) 258 8 = encrypt_counter (replicate 16 0) 258 8"
  using counter_block_bytes [of "replicate 16 0" 258 1 8]
    counter_block_bytes [of "replicate 16 0" 258 0 8]
  by (simp add: byte_of_def)

text \<open>
  C6. Within one call of \<open>encrypt\<close> on a plaintext of at most \<open>2^32\<close> blocks, the counter
  blocks handed to the cipher in the block loop are as many as the blocks and differ
  pairwise.
\<close>

theorem counter_blocks_pairwise_distinct:
  assumes "encrypt_trace env plaintext password nBits sequence nonce = Some (result, cipherInputs)"
    and "nBits = 128 \<or> nBits = 192 \<or> nBits = 256"
    and "js_ceil_div (int (length plaintext)) 16 \<le> 2 ^ 32"
  shows "length cipherInputs = nat (js_ceil_div (int (length plaintext)) 16)
       \<and> (\<forall>b1 < length cipherInputs. \<forall>b2 < length cipherInputs.
            b1 \<noteq> b2 \<longrightarrow> cipherInputs ! b1 \<noteq> cipherInputs ! b2)"
proof -
  let ?m = "nat (js_ceil_div (int (length plaintext)) 16)"
  obtain sh where sh: "sequenceShift sequence = Some sh"
    using assms(1) by (cases "sequenceShift sequence") (simp_all add: encrypt_trace_def)
  have ci: "cipherInputs = map (\<lambda>b. replicate 8 0 @ counterBytes (int b) sh) [0..<?m]"
    using assms(1) encrypt_trace_valid [OF assms(2) sh, of env plaintext password nonce] by simp
  have "int ?m \<le> 2 ^ 32" using assms(3) by simp
  then have "distinct cipherInputs"
    unfolding ci by (rule distinct_counter_blocks)
  then have "\<forall>b1 < length cipherInputs. \<forall>b2 < length cipherInputs.
      b1 \<noteq> b2 \<longrightarrow> cipherInputs ! b1 \<noteq> cipherInputs ! b2"
    by (simp only: distinct_conv_nth)
  moreover have "length cipherInputs = ?m"
    by (simp add: ci)
  ultimately show ?thesis by blast
qed

theorem counter_blocks_pairwise_distinct_witness:
  "length (snd (the (encrypt_trace identity_env (replicate 33 0) [7] 128 None None))) = 3
   \<and> snd (the (encrypt_trace identity_env (replicate 33 0) [7] 128 None None)) ! 0 \<noteq>
     snd (the (encrypt_trace identity_env (replicate 33 0) [7] 128 None None)) ! 2"
proof -
  let ?t = "encrypt_trace identity_env (replicate 33 0) [7] 128 None None"
  have run: "?t = Some (fst (the ?t), snd (the ?t))"
    by (simp add: encrypt_trace_valid sequenceShift_absent)
  have c: "js_ceil_div (int (length (replicate 33 (0 :: byte)))) 16 = 3"
    by (simp add: js_ceil_div_def)
  show ?thesis
    using counter_blocks_pairwise_distinct [OF run] unfolding c by simp
qed

text \<open>
  C7. The claim: for every supported key size the output of \<open>encrypt\<close> is 8 bytes longer
  than the plaintext, and the output of \<open>decrypt\<close> on a ciphertext of at least 8 bytes is
  8 bytes shorter. The code at the sequence \<open>2^63\<close>, for any plaintext and any ciphertext:
  both functions derive the shift count before they allocate their output, that call
  never returns, and there is no output of any length.
\<close>

theorem no_output_at_2_63:
  "encrypt env plaintext password 256 (Some (2 ^ 63)) nonce = None
   \<and> encrypt env [] password 128 (Some (2 ^ 63)) nonce = None
   \<and> decrypt env ciphertext password 256 (Some (2 ^ 63)) = None
   \<and> decrypt env [0, 0, 0, 0, 0, 0, 0, 0, 9] password 128 (Some (2 ^ 63)) = None"
  by (intro conjI decrypt_no_shift encrypt_no_shift sequenceShift_2_63) simp_all

text \<open>
  C8. The claim: for every \<open>nBits\<close> other than 128, 192 and 256 and arbitrary other
  arguments, both functions return an empty result at once. The code at \<open>nBits = 100\<close>
  and \<open>sequence = 2^63\<close>: \<open>decrypt\<close> tests \<open>nBits\<close> first and returns the empty string, but
  \<open>encrypt\<close> derives the shift count before the test, and that call never returns.
\<close>

theorem encrypt_tests_nBits_too_late:
  "encrypt env plaintext password 100 (Some (2 ^ 63)) nonce = None
   \<and> decrypt env ciphertext password 100 (Some (2 ^ 63)) = Some (Inr (Str ''''))"
proof -
  have "encrypt env plaintext password 100 (Some (2 ^ 63)) nonce = None"
    by (rule encrypt_no_shift) (rule sequenceShift_2_63)
  moreover have "decrypt env ciphertext password 100 (Some (2 ^ 63)) = Some (Inr (Str ''''))"
    by (rule decrypt_invalid) simp
  ultimately show ?thesis by (rule conjI)
qed

text \<open>
  C9. The claim: two supplied sequences of equal bit length give the same ciphertext, and
  either decrypts what the other encrypted. The code at \<open>2^31 + 1\<close> and \<open>2^31 + 2\<close>, both
  of bit length 32: \<open>leadingZeros\<close> sees the low 31 bits only and the shift counts are 1
  and 2. From the third block on, the counter blocks handed to the cipher differ, for any
  cipher; with the cipher that returns its block, so do the ciphertexts of 48 zero bytes.
\<close>

theorem equal_bit_length_different_ciphertext:
  "bitlen (2 ^ 31 + 1) = bitlen (2 ^ 31 + 2)
   \<and> sequenceShift (Some (2 ^ 31 + 1)) = Some 1
   \<and> sequenceShift (Some (2 ^ 31 + 2)) = Some 2
   \<and> map_option snd (encrypt_trace env (replicate 33 0) password 128 (Some (2 ^ 31 + 1)) nonce) \<noteq>
     map_option snd (encrypt_trace env (replicate 33 0) password 128 (Some (2 ^ 31 + 2)) nonce)
   \<and> encrypt identity_env (replicate 48 0) [7] 128 (Some (2 ^ 31 + 1)) None \<noteq>
     encrypt identity_env (replicate 48 0) [7] 128 (Some (2 ^ 31 + 2)) None"
proof -
  have b: "bitlen (2 ^ 31 + 1) = 32" "bitlen (2 ^ 31 + 2) = 32"
    using bitlen_twopow_add_eq [of 1 31] bitlen_twopow_add_eq [of 2 31] by simp_all
  have "counterBytes 2 1 ! 3 = 1" "counterBytes 2 2 ! 3 = 0"
    by (simp_all add: counterBytes_def js_ushr_def ToUint8_def)
  then have "counterBytes 2 1 \<noteq> counterBytes 2 2"
    by (metis zero_neq_one)
  then have t: "map_option snd
        (encrypt_trace env (replicate 33 0) password 128 (Some (2 ^ 31 + 1)) nonce) \<noteq>
      map_option snd
        (encrypt_trace env (replicate 33 0) password 128 (Some (2 ^ 31 + 2)) nonce)"
    by (simp only: cipher_inputs_33 [OF sequenceShift_2_31_1]
          cipher_inputs_33 [OF sequenceShift_2_31_2]) simp
  have e1: "encrypt identity_env (replicate 48 0) [7] 128 (Some (2 ^ 31 + 1)) None =
      Some (Bytes (encrypt_out identity_env (replicate 48 0) [7] 128 1))"
    using sequenceShift_2_31_1 by (intro encrypt_valid) simp_all
  have e2: "encrypt identity_env (replicate 48 0) [7] 128 (Some (2 ^ 31 + 2)) None =
      Some (Bytes (encrypt_out identity_env (replicate 48 0) [7] 128 2))"
    using sequenceShift_2_31_2 by (intro encrypt_valid) simp_all
  have "encrypt_out identity_env (replicate 48 0) [7] 128 1 ! 51 = 1"
    "encrypt_out identity_env (replicate 48 0) [7] 128 2 ! 51 = 0"
    by (simp_all add: identity_block_2_byte_11 js_ushr_def ToUint8_def)
  then have "encrypt_out identity_env (replicate 48 0) [7] 128 1 \<noteq>
             encrypt_out identity_env (replicate 48 0) [7] 128 2"
    by (metis zero_neq_one)
  then show ?thesis
    using b t e1 e2 sequenceShift_2_31_1 sequenceShift_2_31_2 by simp
qed

text \<open>
  C10. The claim: for a supported key size \<open>decrypt\<close> on a ciphertext shorter than 8
  bytes fails with a runtime error, and on a ciphertext of exactly 8 bytes it returns the
  empty byte sequence. The code at the sequence \<open>2^63\<close>: the shift count is derived before
  the output buffer is allocated and that call never returns, so a ciphertext of 3 bytes
  raises no error and one of 8 bytes gives no result.
\<close>

theorem decrypt_short_ciphertext_never_returns_at_2_63:
  "decrypt env [1, 2, 3] password 128 (Some (2 ^ 63)) = None
   \<and> decrypt env [1, 2, 3, 4, 5, 6, 7, 8] password 128 (Some (2 ^ 63)) = None"
  by (intro conjI decrypt_no_shift sequenceShift_2_63) simp_all

end
